theory Spec2Isabelle
  imports Main "HOL-Library.AList" "HOL-Library.Word"
begin

section \<open>Go maps\<close>

text \<open>
  A Go map is kept as an association list with pairwise different keys.
  \<open>m[k]\<close> is \<open>map_of m k\<close>, \<open>m[k] = v\<close> is \<open>AList.update k v m\<close>,
  \<open>delete(m, k)\<close> is \<open>AList.delete k m\<close>, and \<open>range m\<close> walks the list.
  Go leaves the order of \<open>range\<close> open; here it is the order of the list. The maps
  a plugin hands in are arbitrary lists, so every order of them is covered; for the
  maps the code builds and the router ranges over, the statements on routing are
  made for every listing of the table (\<open>sameTable\<close> below).
  A read of a missing key gives the zero value of the value type: \<open>false\<close> for
  \<open>map[..]bool\<close>, the nil function for a map of functions.
\<close>

type_synonym ('k, 'v) gomap = "('k \<times> 'v) list"

definition getBool :: "('k, bool) gomap \<Rightarrow> 'k \<Rightarrow> bool" where
  "getBool m k = (case map_of m k of None \<Rightarrow> False | Some b \<Rightarrow> b)"

section \<open>Plugins and the dispatch table\<close>

text \<open>
  Filters and handlers are functions supplied by the plugins. A filter is named by a
  value of type \<open>'f\<close> and a handler by a value of type \<open>'h\<close>; what a filter answers on
  an event is given by a predicate \<open>holds\<close> passed to the router. The plugin interface
  is read through its methods \<open>Name()\<close>, \<open>Load()\<close> (the error it returns, if any),
  \<open>Filters()\<close> and \<open>Handlers()\<close>. The functions a plugin stores in its maps are
  not nil, so that \<open>pluginHandlers[key] == nil\<close> says that the key is missing.
\<close>

record ('f, 'h) plugin =
  Name :: string
  Load :: "string option"
  Filters :: "(string, 'f) gomap"
  Handlers :: "(string, 'h) gomap"

text \<open>
  A value of the Go type \<open>Handler\<close> stored in a dispatch entry is either a function of
  the plugin or the closure built in \<open>registerAllPlugins\<close>, which holds the slice
  \<open>noFilterHanlers\<close> and calls its members in order.
\<close>

datatype 'h Handler = Fn 'h | NoFilterFn "'h list"

record ('f, 'h) pluginEntry =
  fitlers :: "(string, 'f) gomap"
  handlers :: "(string, 'h Handler) gomap"

type_synonym ('f, 'h) table = "(string, ('f, 'h) pluginEntry) gomap"

definition noFilterKey :: string where
  "noFilterKey = ''__NEVER_SET_UNUSED_KEY__''"

subsection \<open>registerAllPlugins\<close>

text \<open>The first loop: \<open>Load()\<close> of every plugin in order; the first error is fatal.\<close>

fun loadAll :: "('f, 'h) plugin list \<Rightarrow> string option" where
  "loadAll [] = None"
| "loadAll (plug # rest) =
     (case Load plug of Some err \<Rightarrow> Some err | None \<Rightarrow> loadAll rest)"

text \<open>
  The loop over \<open>pluginFilters\<close>: a key without a handler is skipped (the warning goes
  to standard output only); otherwise the key is marked in \<open>hasFilter\<close> and filter and
  handler are stored in the entry under it.
\<close>

fun bindFilters ::
  "(string, 'h) gomap \<Rightarrow> (string, 'f) gomap \<Rightarrow>
   (string, bool) gomap \<times> ('f, 'h) pluginEntry \<Rightarrow> (string, bool) gomap \<times> ('f, 'h) pluginEntry"
where
  "bindFilters pluginHandlers [] st = st"
| "bindFilters pluginHandlers ((key, flt) # rest) (hasFilter, entry) =
     (case map_of pluginHandlers key of
        None \<Rightarrow> bindFilters pluginHandlers rest (hasFilter, entry)
      | Some handler \<Rightarrow>
          bindFilters pluginHandlers rest
            (AList.update key True hasFilter,
             entry\<lparr>fitlers := AList.update key flt (fitlers entry),
                   handlers := AList.update key (Fn handler) (handlers entry)\<rparr>))"

text \<open>The loop over \<open>pluginHandlers\<close>: handlers whose key is not marked are appended.\<close>

fun collectNoFilter :: "(string, bool) gomap \<Rightarrow> (string, 'h) gomap \<Rightarrow> 'h list \<Rightarrow> 'h list" where
  "collectNoFilter hasFilter [] noFilterHanlers = noFilterHanlers"
| "collectNoFilter hasFilter ((key, handler) # rest) noFilterHanlers =
     (if \<not> getBool hasFilter key
      then collectNoFilter hasFilter rest (noFilterHanlers @ [handler])
      else collectNoFilter hasFilter rest noFilterHanlers)"

text \<open>The body of the second loop up to the store: the entry built for one plugin.\<close>

definition mkEntry :: "('f, 'h) plugin \<Rightarrow> ('f, 'h) pluginEntry" where
  "mkEntry plug =
     (case bindFilters (Handlers plug) (Filters plug) ([], \<lparr>fitlers = [], handlers = []\<rparr>) of
        (hasFilter, entry) \<Rightarrow>
          entry\<lparr>handlers :=
            AList.update noFilterKey
              (NoFilterFn (collectNoFilter hasFilter (Handlers plug) [])) (handlers entry)\<rparr>)"

fun wireAll :: "('f, 'h) plugin list \<Rightarrow> ('f, 'h) table \<Rightarrow> ('f, 'h) table" where
  "wireAll [] pluginEntries = pluginEntries"
| "wireAll (plug # rest) pluginEntries =
     wireAll rest (AList.update (Name plug) (mkEntry plug) pluginEntries)"

text \<open>
  \<open>registerAllPlugins\<close> on the table of the client: \<open>Inl\<close> is the message of
  \<open>log.Fatalln\<close>, which ends the process. The \<open>Loaded()\<close> hooks are started as
  goroutines of their own and do not touch the table.
\<close>

definition registerAllPlugins ::
  "('f, 'h) plugin list \<Rightarrow> ('f, 'h) table \<Rightarrow> string + ('f, 'h) table" where
  "registerAllPlugins entries pluginEntries =
     (case loadAll entries of
        Some err \<Rightarrow> Inl err
      | None \<Rightarrow> Inr (wireAll entries pluginEntries))"

subsection \<open>The event router\<close>

text \<open>
  What the router does on one event is recorded as a list of calls, each labelled with
  the name under which the entry is stored: \<open>Uncond\<close> is the call of
  \<open>entry.handlers[noFilterKey]\<close>, \<open>Test\<close> the call of a filter, \<open>Cond\<close> the call of
  \<open>handleFunc\<close> under a filter key, and \<open>Run\<close> a handler of a plugin being executed.
  The second component of a result says that the run ended in a runtime panic (the
  call of a nil function). Filters and handlers themselves are taken to return.
\<close>

datatype ('f, 'h, 'ev) call =
    Uncond string 'ev
  | Test string 'f 'ev
  | Cond string string 'ev
  | Run string 'h 'ev

type_synonym ('f, 'h, 'ev) run = "('f, 'h, 'ev) call list \<times> bool"

definition andThen :: "('f, 'h, 'ev) run \<Rightarrow> ('f, 'h, 'ev) run \<Rightarrow> ('f, 'h, 'ev) run" where
  "andThen r r' = (if snd r then r else (fst r @ fst r', snd r'))"

fun invoke :: "string \<Rightarrow> 'h Handler option \<Rightarrow> 'ev \<Rightarrow> ('f, 'h, 'ev) run" where
  "invoke n None ev = ([], True)"
| "invoke n (Some (Fn h)) ev = ([Run n h ev], False)"
| "invoke n (Some (NoFilterFn hs)) ev = (map (\<lambda>h. Run n h ev) hs, False)"

fun conditional ::
  "string \<Rightarrow> (string, 'h Handler) gomap \<Rightarrow> ('f \<Rightarrow> 'ev \<Rightarrow> bool) \<Rightarrow> 'ev \<Rightarrow>
   (string, 'f) gomap \<Rightarrow> ('f, 'h, 'ev) run"
where
  "conditional n hs holds ev [] = ([], False)"
| "conditional n hs holds ev ((key, filterFunc) # rest) =
     andThen
       (if holds filterFunc ev
        then andThen ([Test n filterFunc ev, Cond n key ev], False) (invoke n (map_of hs key) ev)
        else ([Test n filterFunc ev], False))
       (conditional n hs holds ev rest)"

definition dispatch ::
  "string \<Rightarrow> ('f, 'h) pluginEntry \<Rightarrow> ('f \<Rightarrow> 'ev \<Rightarrow> bool) \<Rightarrow> 'ev \<Rightarrow> ('f, 'h, 'ev) run" where
  "dispatch n entry holds ev =
     andThen
       (andThen ([Uncond n ev], False) (invoke n (map_of (handlers entry) noFilterKey) ev))
       (conditional n (handlers entry) holds ev (fitlers entry))"

fun route :: "('f, 'h) table \<Rightarrow> ('f \<Rightarrow> 'ev \<Rightarrow> bool) \<Rightarrow> 'ev \<Rightarrow> ('f, 'h, 'ev) run" where
  "route [] holds ev = ([], False)"
| "route ((n, entry) # rest) holds ev = andThen (dispatch n entry holds ev) (route rest holds ev)"


subsection \<open>The order of range\<close>

text \<open>
  The router ranges over two maps that the code has built: \<open>c.pluginEntries\<close> and
  the \<open>fitlers\<close> of every entry. \<open>sameTable t t'\<close> says that \<open>t'\<close> is the table
  \<open>t\<close> as \<open>range\<close> may list it: the same names, under every name the same filters
  in some order, and the same handler under every key.
\<close>

definition sameEntry :: "('f, 'h) pluginEntry \<Rightarrow> ('f, 'h) pluginEntry \<Rightarrow> bool" where
  "sameEntry e e' \<longleftrightarrow>
     distinct (map fst (fitlers e')) \<and> set (fitlers e') = set (fitlers e)
     \<and> map_of (handlers e') = map_of (handlers e)"

definition sameTable :: "('f, 'h) table \<Rightarrow> ('f, 'h) table \<Rightarrow> bool" where
  "sameTable t t' \<longleftrightarrow>
     distinct (map fst t') \<and> fst ` set t' = fst ` set t
     \<and> (\<forall>n e e'. map_of t n = Some e \<longrightarrow> map_of t' n = Some e' \<longrightarrow> sameEntry e e')"

text \<open>The name a call is labelled with.\<close>

fun label :: "('f, 'h, 'ev) call \<Rightarrow> string" where
  "label (Uncond n ev) = n"
| "label (Test n f ev) = n"
| "label (Cond n k ev) = n"
| "label (Run n h ev) = n"

section \<open>The client\<close>

subsection \<open>Collaborators\<close>

text \<open>
  Modelled from the spec: the transport connection (type \<open>WSClient\<close> of package
  \<open>clients\<close>) is not among the sources. The spec gives it a connected predicate and a
  send operation for raw frames; the record keeps the name assigned by \<open>Initialize\<close>,
  the connected flag and the frames handed to \<open>Send\<close>, oldest first. A frame is the
  message type and the payload whose JSON encoding \<open>json.Marshal\<close> produces.
\<close>

record CQTypeSendGroupMsg =
  GroupID :: "64 word"
  Message :: string

record CQWSMessage =
  Action :: string
  Params :: CQTypeSendGroupMsg
  Echo :: "64 word"

record WSClient =
  wsName :: string
  connected :: bool
  outbox :: "(nat \<times> CQWSMessage) list"

definition IsConnected :: "WSClient \<Rightarrow> bool" where
  "IsConnected conn = connected conn"

definition Send :: "nat \<Rightarrow> CQWSMessage \<Rightarrow> WSClient \<Rightarrow> WSClient" where
  "Send messageType msg conn = conn\<lparr>outbox := outbox conn @ [(messageType, msg)]\<rparr>"

definition TextMessage :: nat where
  "TextMessage = 1"

text \<open>
  Modelled from the spec: the action name of the outbound payload
  (\<open>ActionSendGroupMsg\<close> is declared outside the sources).
\<close>

definition ActionSendGroupMsg :: string where
  "ActionSendGroupMsg = ''send_group_msg''"

text \<open>
  Modelled from the spec: of the acknowledgement frame (\<open>CQWSResponse\<close>, declared
  outside the sources) the client reads the field \<open>Echo\<close> only.
\<close>

record CQWSResponse =
  respEcho :: "64 word"

text \<open>
  The logging service is used through \<open>AddLog(kind, text)\<close>; the model keeps the list of
  the entries added. The texts built with \<open>fmt.Sprintf\<close> are kept by their format and
  argument: \<open>ServiceConnected name\<close> for the notice of \<open>handleConnect\<close>,
  \<open>EchoTimeout echo\<close> for the notice of the sweep, \<open>ErrorText\<close> for \<open>err.Error()\<close>.
\<close>

datatype LogType = LogTypeInfo | LogTypeError | LogTypeSuccess

datatype logText = ErrorText string | ServiceConnected string | EchoTimeout "64 word"

subsection \<open>State\<close>

text \<open>
  The struct \<open>cqclient\<close>, extended by what the claims observe around it: the entries
  of the logging service, the calls made by the router so far, and for every access to
  \<open>echoqueue\<close> its kind together with the state of \<open>mu\<close> at that moment.
\<close>

datatype access = ReadEcho | RangeEcho | DeleteEcho

record ('f, 'h) cqclient =
  mu :: bool
  apiConn :: WSClient
  eventConn :: WSClient
  pluginEntries :: "('f, 'h) table"
  echoqueue :: "(64 word, bool) gomap"

record ('f, 'h, 'ev) world = "('f, 'h) cqclient" +
  logService :: "(LogType \<times> logText) list"
  routed :: "('f, 'h, 'ev) call list"
  accesses :: "(access \<times> bool) list"

text \<open>
  The variable \<open>Client\<close>: two fresh connections and an allocated, empty
  \<open>pluginEntries\<close>; \<open>echoqueue\<close> is left out of the literal and is the nil map, which
  reads as the empty map.
\<close>

definition newWSClient :: WSClient where
  "newWSClient = \<lparr>wsName = [], connected = False, outbox = []\<rparr>"

definition Client :: "('f, 'h, 'ev) world" where
  "Client = \<lparr>mu = False, apiConn = newWSClient, eventConn = newWSClient,
             pluginEntries = [], echoqueue = [],
             logService = [], routed = [], accesses = []\<rparr>"

definition Lock :: "('f, 'h, 'ev) world \<Rightarrow> ('f, 'h, 'ev) world" where
  "Lock w = w\<lparr>mu := True\<rparr>"

definition Unlock :: "('f, 'h, 'ev) world \<Rightarrow> ('f, 'h, 'ev) world" where
  "Unlock w = w\<lparr>mu := False\<rparr>"

definition touch :: "access \<Rightarrow> ('f, 'h, 'ev) world \<Rightarrow> ('f, 'h, 'ev) world" where
  "touch a w = w\<lparr>accesses := accesses w @ [(a, mu w)]\<rparr>"

definition deleteEcho :: "64 word \<Rightarrow> ('f, 'h, 'ev) world \<Rightarrow> ('f, 'h, 'ev) world" where
  "deleteEcho echo w = (touch DeleteEcho w)\<lparr>echoqueue := AList.delete echo (echoqueue w)\<rparr>"

definition AddLog :: "LogType \<Rightarrow> logText \<Rightarrow> ('f, 'h, 'ev) world \<Rightarrow> ('f, 'h, 'ev) world" where
  "AddLog ltype text w = w\<lparr>logService := logService w @ [(ltype, text)]\<rparr>"

subsection \<open>Callbacks of the connections\<close>

definition handleConnect :: "WSClient \<Rightarrow> ('f, 'h, 'ev) world \<Rightarrow> ('f, 'h, 'ev) world" where
  "handleConnect conn w =
     (if IsConnected conn then AddLog LogTypeInfo (ServiceConnected (wsName conn)) w else w)"

definition handleError :: "string \<Rightarrow> ('f, 'h, 'ev) world \<Rightarrow> ('f, 'h, 'ev) world" where
  "handleError err w = AddLog LogTypeError (ErrorText err) w"

text \<open>
  \<open>apiConn.OnMessage\<close>. The argument is the result of \<open>json.Unmarshal(raw, msg)\<close> on
  the frame: \<open>Inl\<close> the text of the error, \<open>Inr\<close> the decoded response.
\<close>

definition apiOnMessage ::
  "string + CQWSResponse \<Rightarrow> ('f, 'h, 'ev) world \<Rightarrow> ('f, 'h, 'ev) world" where
  "apiOnMessage decoded w =
     (case decoded of
        Inl err \<Rightarrow> AddLog LogTypeError (ErrorText err) w
      | Inr msg \<Rightarrow>
          (let echo = respEcho msg; w1 = touch ReadEcho w
           in if getBool (echoqueue w1) echo
              then Unlock (deleteEcho echo (Lock w1))
              else w1))"

text \<open>
  A callback ends by returning or by a panic. \<open>log.Panicln\<close> of the standard library
  writes to the standard logger and then panics with the text.
\<close>

datatype outcome = Returned | Panicked string

definition log_Panicln :: "string \<Rightarrow> outcome" where
  "log_Panicln v = Panicked v"

definition nilCall :: string where
  "nilCall = ''invalid memory address or nil pointer dereference''"

text \<open>
  \<open>eventConn.OnMessage\<close>. The argument is the result of \<open>json.Unmarshal(raw, event)\<close>.
  In the error branch the statements after \<open>log.Panicln\<close> are kept as the source has
  them.
\<close>

definition eventOnMessage ::
  "('f \<Rightarrow> 'ev \<Rightarrow> bool) \<Rightarrow> string + 'ev \<Rightarrow> ('f, 'h, 'ev) world \<Rightarrow> ('f, 'h, 'ev) world \<times> outcome" where
  "eventOnMessage holds decoded w =
     (case decoded of
        Inl errMsg \<Rightarrow>
          (case log_Panicln errMsg of
             Panicked v \<Rightarrow> (w, Panicked v)
           | Returned \<Rightarrow> (AddLog LogTypeError (ErrorText errMsg) w, Returned))
      | Inr event \<Rightarrow>
          (case route (pluginEntries w) holds event of
             (calls, panicked) \<Rightarrow>
               (w\<lparr>routed := routed w @ calls\<rparr>,
                if panicked then Panicked nilCall else Returned)))"

subsection \<open>The sweep\<close>

definition timeForWait :: "64 word" where
  "timeForWait = 30"

text \<open>
  One tick of the ticker: \<open>now\<close> is \<open>time.Now().Unix()\<close>. The loop ranges over the
  entries of \<open>echoqueue\<close> as they are when the tick starts; the only entry deleted
  during a turn is the one being visited. \<open>now - echo\<close> is a subtraction of
  \<open>int64\<close> and wraps; the comparison is signed.
\<close>

fun sweepEntries ::
  "64 word \<Rightarrow> (64 word \<times> bool) list \<Rightarrow> ('f, 'h, 'ev) world \<Rightarrow> ('f, 'h, 'ev) world" where
  "sweepEntries now [] w = w"
| "sweepEntries now ((echo, state) # rest) w =
     (if state \<and> timeForWait <s now - echo
      then sweepEntries now rest
             (Unlock (deleteEcho echo (Lock (AddLog LogTypeError (EchoTimeout echo) w))))
      else sweepEntries now rest w)"

definition sweepTick :: "64 word \<Rightarrow> ('f, 'h, 'ev) world \<Rightarrow> ('f, 'h, 'ev) world" where
  "sweepTick now w = sweepEntries now (echoqueue w) (touch RangeEcho w)"

text \<open>
  The goroutine never returns. \<open>runTicks first k\<close> is its first \<open>k\<close> turns when the
  first tick reads the time \<open>first\<close> and every further tick comes one period of
  \<open>timeForWait\<close> seconds after the one before. \<open>ticksBy first t\<close> is the number of
  ticks that have come by the time \<open>t\<close>, and \<open>sweptBy first t w\<close> the state at the
  time \<open>t\<close> when nothing but the sweep has acted on \<open>w\<close>.
\<close>

fun runTicks :: "64 word \<Rightarrow> nat \<Rightarrow> ('f, 'h, 'ev) world \<Rightarrow> ('f, 'h, 'ev) world" where
  "runTicks first 0 w = w"
| "runTicks first (Suc k) w = runTicks (first + timeForWait) k (sweepTick first w)"

definition ticksBy :: "64 word \<Rightarrow> 64 word \<Rightarrow> nat" where
  "ticksBy first t =
     (if sint t < sint first then 0 else nat ((sint t - sint first) div 30) + 1)"

definition sweptBy :: "64 word \<Rightarrow> 64 word \<Rightarrow> ('f, 'h, 'ev) world \<Rightarrow> ('f, 'h, 'ev) world" where
  "sweptBy first t w = runTicks first (ticksBy first t) w"

subsection \<open>The facade\<close>

definition IsAPIOk :: "('f, 'h, 'ev) world \<Rightarrow> bool" where
  "IsAPIOk w = IsConnected (apiConn w)"

definition IsEventOk :: "('f, 'h, 'ev) world \<Rightarrow> bool" where
  "IsEventOk w = IsConnected (eventConn w)"

text \<open>\<open>SendGroupMsg\<close>; \<open>now\<close> is \<open>time.Now().Unix()\<close>.\<close>

definition SendGroupMsg ::
  "64 word \<Rightarrow> 64 word \<Rightarrow> string \<Rightarrow> ('f, 'h, 'ev) world \<Rightarrow> ('f, 'h, 'ev) world" where
  "SendGroupMsg now groupID message w =
     (if \<not> IsAPIOk w then w
      else
        (let payload = \<lparr>Action = ActionSendGroupMsg,
                        Params = \<lparr>GroupID = groupID, Message = message\<rparr>,
                        Echo = now\<rparr>
         in w\<lparr>apiConn := Send TextMessage payload (apiConn w)\<rparr>))"

text \<open>
  The names given to the two connections (UTF-8 bytes of the source's literals).
\<close>

definition botName :: string where
  "botName = [CHR 0xE9, CHR 0x85, CHR 0xB7] @ ''Q'' @
             [CHR 0xE6, CHR 0x9C, CHR 0xBA, CHR 0xE5, CHR 0x99, CHR 0xA8, CHR 0xE4, CHR 0xBA, CHR 0xBA]"

text \<open>
  \<open>Initialize\<close>: names the connections and builds the table; \<open>Inl\<close> is the fatal
  error of a \<open>Load()\<close>. The callbacks it installs are the functions above, and the
  goroutine it starts is the sweep.
\<close>

definition Initialize ::
  "('f, 'h) plugin list \<Rightarrow> ('f, 'h, 'ev) world \<Rightarrow> string + ('f, 'h, 'ev) world" where
  "Initialize entries w =
     (let w1 = w\<lparr>apiConn := (apiConn w)\<lparr>wsName := botName @ ''Api''\<rparr>,
                 eventConn := (eventConn w)\<lparr>wsName := botName @ ''Event''\<rparr>\<rparr>
      in case registerAllPlugins entries (pluginEntries w1) of
           Inl err \<Rightarrow> Inl err
         | Inr t \<Rightarrow> Inr (w1\<lparr>pluginEntries := t\<rparr>))"

text \<open>
  The states of the client: from \<open>Client\<close>, by \<open>Initialize\<close>, by the transport
  setting the connected flag of a connection, and by the callbacks, the sweep and
  \<open>SendGroupMsg\<close> in any order.
\<close>

inductive reachable :: "('f, 'h, 'ev) world \<Rightarrow> bool" where
  start: "reachable Client"
| initialized: "reachable w \<Longrightarrow> Initialize entries w = Inr w' \<Longrightarrow> reachable w'"
| api_flag: "reachable w \<Longrightarrow> reachable (w\<lparr>apiConn := (apiConn w)\<lparr>connected := b\<rparr>\<rparr>)"
| event_flag: "reachable w \<Longrightarrow> reachable (w\<lparr>eventConn := (eventConn w)\<lparr>connected := b\<rparr>\<rparr>)"
| api_connect: "reachable w \<Longrightarrow> reachable (handleConnect (apiConn w) w)"
| event_connect: "reachable w \<Longrightarrow> reachable (handleConnect (eventConn w) w)"
| conn_error: "reachable w \<Longrightarrow> reachable (handleError err w)"
| api_message: "reachable w \<Longrightarrow> reachable (apiOnMessage decoded w)"
| event_message: "reachable w \<Longrightarrow> reachable (fst (eventOnMessage holds decoded w))"
| tick: "reachable w \<Longrightarrow> reachable (sweepTick now w)"
| send: "reachable w \<Longrightarrow> reachable (SendGroupMsg now groupID message w)"

section \<open>Example plugins\<close>

text \<open>
  The scenario of the spec: plugin \<open>A\<close> has the filter \<open>join\<close> and the handler
  \<open>join\<close>, plugin \<open>B\<close> has the handler \<open>any\<close> and no filter. Filters, handlers and
  events are numbers; with \<open>(\<le>)\<close> for \<open>holds\<close>, filter \<open>1\<close> accepts every event
  from \<open>1\<close> on and filter \<open>0\<close> accepts every event. \<open>pluginA2\<close> is a second
  descriptor named \<open>A\<close>; \<open>reservedKeyPlugin\<close> binds a filter and a handler under the
  key that \<open>registerAllPlugins\<close> keeps for its own closure.
\<close>

definition pluginA :: "(nat, nat) plugin" where
  "pluginA = \<lparr>Name = ''A'', Load = None, Filters = [(''join'', 1)], Handlers = [(''join'', 10)]\<rparr>"

definition pluginB :: "(nat, nat) plugin" where
  "pluginB = \<lparr>Name = ''B'', Load = None, Filters = [], Handlers = [(''any'', 20)]\<rparr>"

definition pluginA2 :: "(nat, nat) plugin" where
  "pluginA2 = \<lparr>Name = ''A'', Load = None, Filters = [], Handlers = [(''any'', 30)]\<rparr>"

definition reservedKeyPlugin :: "(nat, nat) plugin" where
  "reservedKeyPlugin =
     \<lparr>Name = ''p'', Load = None, Filters = [(noFilterKey, 0)],
      Handlers = [(noFilterKey, 0), (''any'', 1)]\<rparr>"

text \<open>
  The table of \<open>A\<close> and \<open>B\<close> listed the other way round, the handlers of \<open>A\<close> too.
\<close>

definition reorderedTable :: "(nat, nat) table" where
  "reorderedTable =
     [(''B'', \<lparr>fitlers = [], handlers = [(noFilterKey, NoFilterFn [20])]\<rparr>),
      (''A'', \<lparr>fitlers = [(''join'', 1)],
               handlers = [(noFilterKey, NoFilterFn []), (''join'', Fn 10)]\<rparr>)]"

text \<open>
  The client with the API connection up, the client after the two example plugins
  \<open>A\<close> and \<open>B\<close> have been wired, and a state in which the id \<open>1000\<close> is tracked.
\<close>

definition connectedClient :: "(nat, nat, nat) world" where
  "connectedClient = Client\<lparr>apiConn := newWSClient\<lparr>connected := True\<rparr>\<rparr>"

definition routingClient :: "(nat, nat, nat) world" where
  "routingClient = Client\<lparr>pluginEntries := wireAll [pluginA, pluginB] []\<rparr>"

definition trackedClient :: "(nat, nat, nat) world" where
  "trackedClient = Client\<lparr>echoqueue := [(1000, True)]\<rparr>"

section \<open>Auxiliary notions for the statements\<close>

text \<open>
  The filter bindings of a plugin that have a handler under the same key, and the
  handlers of a plugin whose key has no filter.
\<close>

definition claimed :: "('f, 'h) plugin \<Rightarrow> (string \<times> 'f) list" where
  "claimed plug = filter (\<lambda>(k, f). map_of (Handlers plug) k \<noteq> None) (Filters plug)"

definition unclaimed :: "('f, 'h) plugin \<Rightarrow> 'h list" where
  "unclaimed plug = map snd (filter (\<lambda>(k, h). k \<notin> fst ` set (Filters plug)) (Handlers plug))"

text \<open>
  An entry on which the router cannot meet a nil function: the reserved key and every
  filter key have a handler.
\<close>

definition sound :: "('f, 'h) pluginEntry \<Rightarrow> bool" where
  "sound e \<longleftrightarrow>
     noFilterKey \<in> fst ` set (handlers e) \<and> fst ` set (fitlers e) \<subseteq> fst ` set (handlers e)"

text \<open>The calls made for one filter binding of a registered plugin.\<close>

definition condCalls ::
  "string \<Rightarrow> ('f, 'h) plugin \<Rightarrow> ('f \<Rightarrow> 'ev \<Rightarrow> bool) \<Rightarrow> 'ev \<Rightarrow> string \<times> 'f \<Rightarrow> ('f, 'h, 'ev) call list" where
  "condCalls n plug holds ev = (\<lambda>(k, f).
     if holds f ev
     then Test n f ev # Cond n k ev #
            (if k = noFilterKey then map (\<lambda>h. Run n h ev) (unclaimed plug)
             else [Run n (the (map_of (Handlers plug) k)) ev])
     else [Test n f ev])"

text \<open>
  The test of the sweep on one entry, and the number of timeout notices for an id in
  the log.
\<close>

definition expired :: "64 word \<Rightarrow> 64 word \<times> bool \<Rightarrow> bool" where
  "expired now = (\<lambda>(echo, state). state \<and> timeForWait <s now - echo)"

definition timeouts :: "('f, 'h, 'ev) world \<Rightarrow> 64 word \<Rightarrow> nat" where
  "timeouts w echo = count_list (logService w) (LogTypeError, EchoTimeout echo)"

section \<open>Facts about registration and routing\<close>

lemma update_fresh: "k \<notin> fst ` set al \<Longrightarrow> AList.update k v al = al @ [(k, v)]"
  by (induction al) auto

lemma bindFilters_eq:
  "distinct (map fst F) \<Longrightarrow> fst ` set F \<inter> fst ` set hf = {} \<Longrightarrow>
   fst ` set F \<inter> fst ` set (fitlers e) = {} \<Longrightarrow> fst ` set F \<inter> fst ` set (handlers e) = {} \<Longrightarrow>
   bindFilters H F (hf, e) =
     (hf @ map (\<lambda>(k, f). (k, True)) (filter (\<lambda>(k, f). map_of H k \<noteq> None) F),
      e\<lparr>fitlers := fitlers e @ filter (\<lambda>(k, f). map_of H k \<noteq> None) F,
        handlers := handlers e @ map (\<lambda>(k, f). (k, Fn (the (map_of H k)))) (filter (\<lambda>(k, f). map_of H k \<noteq> None) F)\<rparr>)"
proof (induction F arbitrary: hf e)
  case Nil
  then show ?case by simp
next
  case (Cons a F)
  obtain k f where a: "a = (k, f)" by (cases a)
  show ?case
  proof (cases "map_of H k")
    case None
    with Cons a show ?thesis by auto
  next
    case (Some h)
    have fresh: "k \<notin> fst ` set hf" "k \<notin> fst ` set (fitlers e)" "k \<notin> fst ` set (handlers e)"
      using Cons.prems a by auto
    have kF: "k \<notin> fst ` set F" using Cons.prems(1) a by auto
    let ?hf = "AList.update k True hf"
    let ?e = "e\<lparr>fitlers := AList.update k f (fitlers e), handlers := AList.update k (Fn h) (handlers e)\<rparr>"
    have "bindFilters H F (?hf, ?e) = (?hf @ map (\<lambda>(k, f). (k, True)) (filter (\<lambda>(k, f). map_of H k \<noteq> None) F),
      ?e\<lparr>fitlers := fitlers ?e @ filter (\<lambda>(k, f). map_of H k \<noteq> None) F,
        handlers := handlers ?e @ map (\<lambda>(k, f). (k, Fn (the (map_of H k)))) (filter (\<lambda>(k, f). map_of H k \<noteq> None) F)\<rparr>)"
      apply (rule Cons.IH)
      using Cons.prems a kF by (auto simp: dom_update)
    then show ?thesis using a Some fresh by (simp add: update_fresh)
  qed
qed

lemma collectNoFilter_eq:
  "collectNoFilter hf H acc = acc @ map snd (filter (\<lambda>(k, h). \<not> getBool hf k) H)"
  by (induction H arbitrary: acc) auto

lemma map_of_keyed:
  "map_of (map (\<lambda>(k, f). (k, g k)) xs) k = (if k \<in> fst ` set xs then Some (g k) else None)"
  by (induction xs) auto

lemma getBool_marks:
  "getBool (map (\<lambda>(k, f). (k, True)) xs) k \<longleftrightarrow> k \<in> fst ` set xs"
  by (induction xs) (auto simp: getBool_def)

lemma claimed_keys:
  "fst ` set (claimed plug) = fst ` set (Filters plug) \<inter> fst ` set (Handlers plug)"
  by (force simp: claimed_def map_of_eq_None_iff)

lemma mkEntry_fitlers:
  "distinct (map fst (Filters plug)) \<Longrightarrow> fitlers (mkEntry plug) = claimed plug"
  by (simp add: mkEntry_def bindFilters_eq claimed_def)

lemma unclaimed_alt:
  "map snd (filter (\<lambda>(k, h). \<not> getBool (map (\<lambda>(k, f). (k, True)) (claimed plug)) k) (Handlers plug))
     = unclaimed plug"
proof -
  have "filter (\<lambda>(k, h). \<not> getBool (map (\<lambda>(k, f). (k, True)) (claimed plug)) k) (Handlers plug)
      = filter (\<lambda>(k, h). k \<notin> fst ` set (Filters plug)) (Handlers plug)"
    by (rule filter_cong) (auto simp: getBool_marks claimed_keys intro: rev_image_eqI)
  then show ?thesis by (simp add: unclaimed_def)
qed

lemma mkEntry_handlers:
  "distinct (map fst (Filters plug)) \<Longrightarrow>
   handlers (mkEntry plug) =
     AList.update noFilterKey (NoFilterFn (unclaimed plug))
       (map (\<lambda>(k, f). (k, Fn (the (map_of (Handlers plug) k)))) (claimed plug))"
  using unclaimed_alt [of plug]
  by (simp add: mkEntry_def bindFilters_eq claimed_def collectNoFilter_eq)

lemma mkEntry_lookup:
  "distinct (map fst (Filters plug)) \<Longrightarrow>
   map_of (handlers (mkEntry plug)) k =
     (if k = noFilterKey then Some (NoFilterFn (unclaimed plug))
      else if k \<in> fst ` set (claimed plug) then Some (Fn (the (map_of (Handlers plug) k)))
      else None)"
  by (simp add: mkEntry_handlers update_conv' map_of_keyed)

lemma bindFilters_keys:
  "fst ` set (fitlers e) \<subseteq> fst ` set (handlers e) \<Longrightarrow>
   fst ` set (fitlers (snd (bindFilters H F (hf, e)))) \<subseteq> fst ` set (handlers (snd (bindFilters H F (hf, e))))"
proof (induction F arbitrary: hf e)
  case Nil
  then show ?case by simp
next
  case (Cons a F)
  obtain k f where a: "a = (k, f)" by (cases a)
  show ?case
  proof (cases "map_of H k")
    case None
    with Cons a show ?thesis by simp
  next
    case (Some h)
    have "fst ` set (fitlers (e\<lparr>fitlers := AList.update k f (fitlers e), handlers := AList.update k (Fn h) (handlers e)\<rparr>))
       \<subseteq> fst ` set (handlers (e\<lparr>fitlers := AList.update k f (fitlers e), handlers := AList.update k (Fn h) (handlers e)\<rparr>))"
      using Cons.prems by (auto simp: dom_update)
    from Cons.IH [OF this] show ?thesis using a Some by simp
  qed
qed

lemma mkEntry_sound: "sound (mkEntry plug)"
proof -
  obtain hf e where b: "bindFilters (Handlers plug) (Filters plug) ([], \<lparr>fitlers = [], handlers = []\<rparr>) = (hf, e)"
    by (cases "bindFilters (Handlers plug) (Filters plug) ([], \<lparr>fitlers = [], handlers = []\<rparr>)")
  have "fst ` set (fitlers e) \<subseteq> fst ` set (handlers e)"
    using bindFilters_keys [of "\<lparr>fitlers = [], handlers = []\<rparr>" "Handlers plug" "Filters plug" "[]"] b by simp
  then show ?thesis
    using b by (auto simp: sound_def mkEntry_def dom_update)
qed

lemma andThen_ok: "\<not> snd r \<Longrightarrow> andThen r r' = (fst r @ fst r', snd r')"
  by (simp add: andThen_def)

lemma invoke_Some: "\<not> snd (invoke n (Some g) ev)"
  by (cases g) simp_all

lemma conditional_sound:
  "fst ` set fs \<subseteq> fst ` set hs \<Longrightarrow>
   conditional n hs holds ev fs =
     (concat (map (\<lambda>(k, f). if holds f ev
                              then Test n f ev # Cond n k ev # fst (invoke n (map_of hs k) ev)
                              else [Test n f ev]) fs), False)"
proof (induction fs)
  case Nil
  then show ?case by simp
next
  case (Cons a fs)
  obtain k f where a: "a = (k, f)" by (cases a)
  from Cons.prems a obtain g where g: "map_of hs k = Some g"
    by (cases "map_of hs k") (auto simp: map_of_eq_None_iff)
  have IH: "conditional n hs holds ev fs =
     (concat (map (\<lambda>(k, f). if holds f ev
                              then Test n f ev # Cond n k ev # fst (invoke n (map_of hs k) ev)
                              else [Test n f ev]) fs), False)"
    using Cons by simp
  show ?case
    using a g IH by (simp add: andThen_ok invoke_Some)
qed

lemma dispatch_sound:
  "sound e \<Longrightarrow>
   dispatch n e holds ev =
     (Uncond n ev # fst (invoke n (map_of (handlers e) noFilterKey) ev) @
        concat (map (\<lambda>(k, f). if holds f ev
                              then Test n f ev # Cond n k ev # fst (invoke n (map_of (handlers e) k) ev)
                              else [Test n f ev]) (fitlers e)), False)"
proof -
  assume s: "sound e"
  then obtain g where g: "map_of (handlers e) noFilterKey = Some g"
    by (cases "map_of (handlers e) noFilterKey") (auto simp: sound_def map_of_eq_None_iff)
  from s have "fst ` set (fitlers e) \<subseteq> fst ` set (handlers e)" by (simp add: sound_def)
  then show ?thesis
    using g by (simp add: dispatch_def andThen_ok invoke_Some conditional_sound)
qed

lemma route_sound:
  "\<forall>(n, e) \<in> set t. sound e \<Longrightarrow>
   route t holds ev = (concat (map (\<lambda>(n, e). fst (dispatch n e holds ev)) t), False)"
proof (induction t)
  case Nil
  then show ?case by simp
next
  case (Cons a t)
  obtain n e where a: "a = (n, e)" by (cases a)
  with Cons.prems have "sound e" by simp
  then have "\<not> snd (dispatch n e holds ev)" by (simp add: dispatch_sound)
  moreover have "route t holds ev = (concat (map (\<lambda>(n, e). fst (dispatch n e holds ev)) t), False)"
    using Cons by simp
  ultimately show ?case using a by (simp add: andThen_ok)
qed

lemma andThen_set: "set (fst (andThen r r')) \<subseteq> set (fst r) \<union> set (fst r')"
  by (auto simp: andThen_def)

lemma invoke_labels: "c \<in> set (fst (invoke n g ev)) \<Longrightarrow> label c = n"
  by (cases "(n, g, ev)" rule: invoke.cases) auto

lemma conditional_labels: "c \<in> set (fst (conditional n hs holds ev fs)) \<Longrightarrow> label c = n"
proof (induction fs arbitrary: c)
  case Nil
  then show ?case by simp
next
  case (Cons a fs)
  obtain k f where a: "a = (k, f)" by (cases a)
  from Cons.prems a have
    "c \<in> set (fst (if holds f ev
        then andThen ([Test n f ev, Cond n k ev], False) (invoke n (map_of hs k) ev)
        else ([Test n f ev], False))) \<or> c \<in> set (fst (conditional n hs holds ev fs))"
    using andThen_set by fastforce
  then show ?case
  proof
    assume "c \<in> set (fst (if holds f ev
        then andThen ([Test n f ev, Cond n k ev], False) (invoke n (map_of hs k) ev)
        else ([Test n f ev], False)))"
    then show ?thesis
      by (auto simp: andThen_def invoke_labels split: if_splits)
  next
    assume "c \<in> set (fst (conditional n hs holds ev fs))"
    then show ?thesis by (rule Cons.IH)
  qed
qed

lemma dispatch_labels: "c \<in> set (fst (dispatch n e holds ev)) \<Longrightarrow> label c = n"
  by (auto simp: dispatch_def andThen_def invoke_labels conditional_labels split: if_splits)


lemma route_by_label:
  assumes "distinct (map fst t)" and "\<forall>(n, e) \<in> set t. sound e"
  shows "filter (\<lambda>c. label c = n) (fst (route t holds ev)) =
           (case map_of t n of None \<Rightarrow> [] | Some e \<Rightarrow> fst (dispatch n e holds ev))"
proof -
  have other: "filter (\<lambda>c. label c = n) (fst (dispatch m e holds ev)) = []" if "m \<noteq> n" for m e
    using that by (auto simp: filter_empty_conv dest: dispatch_labels)
  have same: "filter (\<lambda>c. label c = n) (fst (dispatch n e holds ev)) = fst (dispatch n e holds ev)" for e
    by (auto simp: filter_id_conv dest: dispatch_labels)
  have "filter (\<lambda>c. label c = n) (concat (map (\<lambda>(n, e). fst (dispatch n e holds ev)) t)) =
           (case map_of t n of None \<Rightarrow> [] | Some e \<Rightarrow> fst (dispatch n e holds ev))"
    using assms(1)
  proof (induction t)
    case Nil
    then show ?case by simp
  next
    case (Cons a t)
    obtain m e where a: "a = (m, e)" by (cases a)
    show ?case
    proof (cases "m = n")
      case True
      with Cons.prems a have "map_of t n = None" by (auto simp: map_of_eq_None_iff)
      with Cons a True show ?thesis by (simp add: same)
    next
      case False
      with Cons a show ?thesis by (simp add: other)
    qed
  qed
  with assms(2) show ?thesis by (simp add: route_sound)
qed

lemma update_set: "x \<in> set (AList.update k v al) \<Longrightarrow> x = (k, v) \<or> x \<in> set al"
  by (induction al) (auto split: if_splits)

lemma wireAll_sound:
  "\<forall>(n, e) \<in> set t. sound e \<Longrightarrow> \<forall>(n, e) \<in> set (wireAll ps t). sound e"
proof (induction ps arbitrary: t)
  case Nil
  then show ?case by simp
next
  case (Cons p ps)
  have "\<forall>(n, e) \<in> set (AList.update (Name p) (mkEntry p) t). sound e"
    using Cons.prems mkEntry_sound by (auto dest!: update_set)
  from Cons.IH [OF this] show ?case by simp
qed

lemma wireAll_distinct:
  "distinct (map fst t) \<Longrightarrow> distinct (map fst (wireAll ps t))"
  by (induction ps arbitrary: t) (simp_all add: distinct_update)

lemma wireAll_other:
  "n \<notin> Name ` set ps \<Longrightarrow> map_of (wireAll ps t) n = map_of t n"
  by (induction ps arbitrary: t) (simp_all add: update_conv')

lemma wireAll_append: "wireAll (ps @ qs) t = wireAll qs (wireAll ps t)"
  by (induction ps arbitrary: t) simp_all

lemma wireAll_last:
  "Name p \<notin> Name ` set qs \<Longrightarrow> map_of (wireAll (ps @ p # qs) t) (Name p) = Some (mkEntry p)"
  by (simp add: wireAll_append wireAll_other update_conv')

lemma dispatch_mkEntry:
  assumes "distinct (map fst (Filters plug))"
  shows "dispatch n (mkEntry plug) holds ev =
           (Uncond n ev # map (\<lambda>h. Run n h ev) (unclaimed plug) @
              concat (map (condCalls n plug holds ev) (claimed plug)), False)"
proof -
  have eq: "map (\<lambda>(k, f). if holds f ev
                        then Test n f ev # Cond n k ev # fst (invoke n (map_of (handlers (mkEntry plug)) k) ev)
                        else [Test n f ev]) (claimed plug)
        = map (condCalls n plug holds ev) (claimed plug)"
    by (rule map_cong) (force simp: condCalls_def mkEntry_lookup [OF assms])+
  have uq: "fst (invoke n (map_of (handlers (mkEntry plug)) noFilterKey) ev)
        = (map (\<lambda>h. Run n h ev) (unclaimed plug) :: ('a, 'b, 'c) call list)"
    by (simp add: mkEntry_lookup [OF assms])
  show ?thesis
    unfolding dispatch_sound [OF mkEntry_sound] mkEntry_fitlers [OF assms] eq uq by (rule refl)
qed

lemma count_list_distinct: "distinct xs \<Longrightarrow> x \<in> set xs \<Longrightarrow> count_list xs x = 1"
  by (induction xs) auto

lemma count_list_label:
  "label x = n \<Longrightarrow> count_list (filter (\<lambda>c. label c = n) t) x = count_list t x"
  by (induction t) auto

lemma registered_lookup:
  assumes "registerAllPlugins entries [] = Inr table"
    and "entries = before @ plug # after" and "Name plug \<notin> Name ` set after"
  shows "map_of table (Name plug) = Some (mkEntry plug)"
    and "distinct (map fst table)" and "\<forall>(n, e) \<in> set table. sound e"
proof -
  from assms(1) have t: "table = wireAll entries []"
    by (auto simp: registerAllPlugins_def split: option.splits)
  show "map_of table (Name plug) = Some (mkEntry plug)"
    using assms(2,3) t by (simp add: wireAll_last)
  show "distinct (map fst table)" using t by (simp add: wireAll_distinct)
  show "\<forall>(n, e) \<in> set table. sound e" using t wireAll_sound [of "[]" entries] by simp
qed

lemma registered_calls:
  assumes "registerAllPlugins entries [] = Inr table"
    and "entries = before @ plug # after" and "Name plug \<notin> Name ` set after"
  shows "filter (\<lambda>c. label c = Name plug) (fst (route table holds ev))
           = fst (dispatch (Name plug) (mkEntry plug) holds ev)"
  using registered_lookup [OF assms] by (simp add: route_by_label)

lemma unclaimed_distinct: "distinct (map snd (Handlers plug)) \<Longrightarrow> distinct (unclaimed plug)"
  unfolding unclaimed_def by (simp add: distinct_map_filter)

lemma snd_inj:
  "distinct (map snd H) \<Longrightarrow> (k, h) \<in> set H \<Longrightarrow> (k', h) \<in> set H \<Longrightarrow> k = k'"
  by (induction H) (auto simp: rev_image_eqI)

lemma claimed_distinct: "distinct (map fst (Filters plug)) \<Longrightarrow> distinct (map fst (claimed plug))"
  unfolding claimed_def by (simp add: distinct_map_filter)

lemma only_entry:
  "distinct (map fst t) \<Longrightarrow> map_of t n = Some e \<Longrightarrow> filter (\<lambda>(m, e'). m = n) t = [(n, e)]"
proof (induction t)
  case Nil
  then show ?case by simp
next
  case (Cons a t)
  obtain m e' where a: "a = (m, e')" by (cases a)
  show ?case
  proof (cases "m = n")
    case True
    with Cons.prems a have "e' = e" and "n \<notin> fst ` set t" by auto
    then have "filter (\<lambda>(m, e'). m = n) t = []"
      by (auto simp: filter_empty_conv intro: rev_image_eqI)
    with True a \<open>e' = e\<close> show ?thesis by simp
  next
    case False
    with Cons a show ?thesis by simp
  qed
qed

lemma loadAll_None: "(\<forall>q \<in> set ps. Load q = None) \<Longrightarrow> loadAll ps = None"
  by (induction ps) simp_all

lemma count_list_concat_map:
  "count_list (concat (map f xs)) c = sum_list (map (\<lambda>x. count_list (f x) c) xs)"
  by (induction xs) simp_all

lemma count_concat_perm:
  assumes "distinct xs" and "distinct ys" and "set xs = set ys"
  shows "count_list (concat (map f xs)) c = count_list (concat (map f ys)) c"
  using assms by (simp add: count_list_concat_map sum_list_distinct_conv_sum_set)

lemma distinct_keys: "distinct (map fst xs) \<Longrightarrow> distinct xs"
  by (simp add: distinct_map)

lemma sameEntry_sound: "sound e \<Longrightarrow> sameEntry e e' \<Longrightarrow> sound e'"
proof -
  assume s: "sound e" and se: "sameEntry e e'"
  from se have m: "map_of (handlers e') = map_of (handlers e)" by (simp add: sameEntry_def)
  have "fst ` set (handlers e') = fst ` set (handlers e)"
    using m by (metis dom_map_of_conv_image_fst)
  moreover from se have "fst ` set (fitlers e') = fst ` set (fitlers e)" by (simp add: sameEntry_def)
  ultimately show ?thesis using s by (simp add: sound_def)
qed

lemma dispatch_count:
  assumes s: "sound e" and d: "distinct (map fst (fitlers e))" and se: "sameEntry e e'"
  shows "count_list (fst (dispatch n e' holds ev)) c = count_list (fst (dispatch n e holds ev)) c"
proof -
  from se have m: "map_of (handlers e') = map_of (handlers e)"
    and d': "distinct (map fst (fitlers e'))" and st: "set (fitlers e') = set (fitlers e)"
    by (simp_all add: sameEntry_def)
  have s': "sound e'" using s se by (rule sameEntry_sound)
  show ?thesis
    unfolding dispatch_sound [OF s] dispatch_sound [OF s'] m
    using count_concat_perm [OF distinct_keys [OF d'] distinct_keys [OF d] st]
    by simp
qed

lemma route_count_label:
  assumes "distinct (map fst t)" and "\<forall>(n, e) \<in> set t. sound e"
  shows "count_list (fst (route t holds ev)) c =
           (case map_of t (label c) of None \<Rightarrow> 0
            | Some e \<Rightarrow> count_list (fst (dispatch (label c) e holds ev)) c)"
proof -
  have "count_list (fst (route t holds ev)) c
          = count_list (filter (\<lambda>x. label x = label c) (fst (route t holds ev))) c"
    by (simp add: count_list_label)
  then show ?thesis
    by (simp add: route_by_label [OF assms] split: option.splits)
qed

lemma sameTable_route:
  assumes dt: "distinct (map fst t)"
    and ok: "\<forall>(n, e) \<in> set t. sound e \<and> distinct (map fst (fitlers e))"
    and st: "sameTable t t'"
  shows "count_list (fst (route t' holds ev)) c = count_list (fst (route t holds ev)) c"
    and "\<not> snd (route t' holds ev)"
proof -
  from st have dt': "distinct (map fst t')" and keys: "fst ` set t' = fst ` set t"
    and rel: "\<And>n e e'. map_of t n = Some e \<Longrightarrow> map_of t' n = Some e' \<Longrightarrow> sameEntry e e'"
    by (auto simp: sameTable_def)
  have s: "\<forall>(n, e) \<in> set t. sound e" using ok by auto
  have s': "\<forall>(n, e') \<in> set t'. sound e'"
  proof (clarify)
    fix n e' assume m: "(n, e') \<in> set t'"
    then have l': "map_of t' n = Some e'" using dt' by (simp add: map_of_is_SomeI)
    from m keys have "n \<in> fst ` set t" by (metis fst_conv image_eqI)
    then obtain e where l: "map_of t n = Some e"
      by (cases "map_of t n") (auto simp: map_of_eq_None_iff)
    then have "(n, e) \<in> set t" by (rule map_of_SomeD)
    with s have "sound e" by auto
    then show "sound e'" using rel [OF l l'] by (rule sameEntry_sound)
  qed
  show "\<not> snd (route t' holds ev)" using s' by (simp add: route_sound)
  show "count_list (fst (route t' holds ev)) c = count_list (fst (route t holds ev)) c"
  proof (cases "map_of t (label c)")
    case None
    then have "label c \<notin> fst ` set t" by (simp add: map_of_eq_None_iff)
    with keys have "map_of t' (label c) = None" by (simp add: map_of_eq_None_iff)
    with None show ?thesis
      by (simp add: route_count_label [OF dt s] route_count_label [OF dt' s'])
  next
    case (Some e)
    then have mem: "(label c, e) \<in> set t" by (rule map_of_SomeD)
    then have "label c \<in> fst ` set t'" using keys by (metis fst_conv image_eqI)
    then obtain e' where l': "map_of t' (label c) = Some e'"
      by (cases "map_of t' (label c)") (auto simp: map_of_eq_None_iff)
    from mem ok have "sound e" and "distinct (map fst (fitlers e))" by auto
    from dispatch_count [OF this rel [OF Some l']] Some l' show ?thesis
      by (simp add: route_count_label [OF dt s] route_count_label [OF dt' s'])
  qed
qed

lemma bindFilters_distinct:
  "distinct (map fst (fitlers e)) \<Longrightarrow>
   distinct (map fst (fitlers (snd (bindFilters H F (hf, e)))))"
proof (induction F arbitrary: hf e)
  case Nil
  then show ?case by simp
next
  case (Cons a F)
  obtain k f where a: "a = (k, f)" by (cases a)
  show ?case
  proof (cases "map_of H k")
    case None
    with Cons a show ?thesis by simp
  next
    case (Some h)
    have "distinct (map fst (fitlers (e\<lparr>fitlers := AList.update k f (fitlers e), handlers := AList.update k (Fn h) (handlers e)\<rparr>)))"
      using Cons.prems by (simp add: distinct_update)
    from Cons.IH [OF this] show ?thesis using a Some by simp
  qed
qed

lemma mkEntry_distinct: "distinct (map fst (fitlers (mkEntry plug)))"
proof -
  obtain hf e where b: "bindFilters (Handlers plug) (Filters plug) ([], \<lparr>fitlers = [], handlers = []\<rparr>) = (hf, e)"
    by (cases "bindFilters (Handlers plug) (Filters plug) ([], \<lparr>fitlers = [], handlers = []\<rparr>)")
  have "distinct (map fst (fitlers e))"
    using bindFilters_distinct [of "\<lparr>fitlers = [], handlers = []\<rparr>" "Handlers plug" "Filters plug" "[]"] b by simp
  then show ?thesis using b by (simp add: mkEntry_def)
qed

lemma wireAll_ok:
  "\<forall>(n, e) \<in> set t. sound e \<and> distinct (map fst (fitlers e)) \<Longrightarrow>
   \<forall>(n, e) \<in> set (wireAll ps t). sound e \<and> distinct (map fst (fitlers e))"
proof (induction ps arbitrary: t)
  case Nil
  then show ?case by simp
next
  case (Cons p ps)
  have "\<forall>(n, e) \<in> set (AList.update (Name p) (mkEntry p) t). sound e \<and> distinct (map fst (fitlers e))"
    using Cons.prems mkEntry_sound mkEntry_distinct by (auto dest!: update_set)
  from Cons.IH [OF this] show ?case by simp
qed

lemma registered_any_order:
  assumes "registerAllPlugins entries [] = Inr table" and "sameTable table table'"
  shows "count_list (fst (route table' holds ev)) c = count_list (fst (route table holds ev)) c"
    and "\<not> snd (route table' holds ev)"
proof -
  from assms(1) have t: "table = wireAll entries []"
    by (auto simp: registerAllPlugins_def split: option.splits)
  have d: "distinct (map fst table)" using t by (simp add: wireAll_distinct)
  have ok: "\<forall>(n, e) \<in> set table. sound e \<and> distinct (map fst (fitlers e))"
    using t wireAll_ok [of "[]" entries] by simp
  show "count_list (fst (route table' holds ev)) c = count_list (fst (route table holds ev)) c"
    using sameTable_route(1) [OF d ok assms(2)] .
  show "\<not> snd (route table' holds ev)"
    using sameTable_route(2) [OF d ok assms(2)] .
qed

section \<open>Routing\<close>

lemma reorderedTable_same: "sameTable (wireAll [pluginA, pluginB] []) reorderedTable"
  by (auto simp add: sameTable_def sameEntry_def reorderedTable_def pluginA_def pluginB_def
      mkEntry_def getBool_def noFilterKey_def split: if_splits)

lemmas example_defs =
  pluginA_def pluginB_def pluginA2_def reservedKeyPlugin_def registerAllPlugins_def
  mkEntry_def getBool_def noFilterKey_def dispatch_def andThen_def

lemma unfiltered_once_listed:
  assumes reg: "registerAllPlugins entries [] = Inr table"
    and ent: "entries = before @ plug # after" and last: "Name plug \<notin> Name ` set after"
    and dF: "distinct (map fst (Filters plug))"
    and inj: "distinct (map snd (Handlers plug))"
    and kh: "(key, h) \<in> set (Handlers plug)" and nof: "key \<notin> fst ` set (Filters plug)"
    and res: "noFilterKey \<notin> fst ` set (Filters plug) \<or> noFilterKey \<notin> fst ` set (Handlers plug)"
  shows "count_list (fst (route table holds ev)) (Run (Name plug) h ev) = 1
         \<and> \<not> snd (route table holds ev)"
proof -
  let ?n = "Name plug"
  let ?x = "Run ?n h ev :: ('a, 'b, 'c) call"
  have hU: "h \<in> set (unclaimed plug)"
    using kh nof by (force simp: unclaimed_def)
  have inj_Run: "inj (\<lambda>h. Run ?n h ev :: ('a, 'b, 'c) call)" by (simp add: inj_def)
  have c1: "count_list (map (\<lambda>h. Run ?n h ev :: ('a, 'b, 'c) call) (unclaimed plug)) ?x = 1"
    using count_list_map_conv [OF inj_Run] count_list_distinct [OF unclaimed_distinct [OF inj] hU]
    by simp
  have "?x \<notin> set (condCalls ?n plug holds ev kf)" if kf: "kf \<in> set (claimed plug)" for kf
  proof -
    obtain k f where kf': "kf = (k, f)" by (cases kf)
    from kf kf' have kF: "k \<in> fst ` set (Filters plug)" and kH: "map_of (Handlers plug) k \<noteq> None"
      by (auto simp: claimed_def intro: rev_image_eqI)
    from kH obtain h' where h': "map_of (Handlers plug) k = Some h'" by auto
    then have mem: "(k, h') \<in> set (Handlers plug)" by (rule map_of_SomeD)
    have "k \<noteq> noFilterKey"
      using res kF mem by (auto intro: rev_image_eqI)
    moreover have "h' \<noteq> h"
      using snd_inj [OF inj kh] mem kF nof by auto
    ultimately show ?thesis using kf' h' by (simp add: condCalls_def)
  qed
  then have c2: "count_list (concat (map (condCalls ?n plug holds ev) (claimed plug))) ?x = 0"
    by (simp add: count_list_0_iff)
  have "count_list (fst (route table holds ev)) ?x
          = count_list (filter (\<lambda>c. label c = ?n) (fst (route table holds ev))) ?x"
    by (simp add: count_list_label)
  also have "\<dots> = count_list (fst (dispatch ?n (mkEntry plug) holds ev)) ?x"
    by (simp add: registered_calls [OF reg ent last])
  also have "\<dots> = 1"
    using c1 c2 by (simp add: dispatch_mkEntry [OF dF])
  finally have "count_list (fst (route table holds ev)) ?x = 1" .
  moreover have "\<not> snd (route table holds ev)"
    using registered_lookup(3) [OF reg ent last] by (simp add: route_sound)
  ultimately show ?thesis by simp
qed

text \<open>
  C3, as the code has it. Let a plugin be registered, that is, no later descriptor of
  the list has its name; let its filter keys be pairwise different, its handlers be
  pairwise different functions, and let it not bind both a filter and a handler under
  the reserved key. Then for every event routed once, in whatever order the router
  ranges over its maps, a handler of the plugin whose key has no filter is run exactly
  once on that event, and the router returns.
\<close>

theorem unfiltered_handler_runs_once:
  assumes reg: "registerAllPlugins entries [] = Inr table"
    and ent: "entries = before @ plug # after" and last: "Name plug \<notin> Name ` set after"
    and dF: "distinct (map fst (Filters plug))"
    and inj: "distinct (map snd (Handlers plug))"
    and kh: "(key, h) \<in> set (Handlers plug)" and nof: "key \<notin> fst ` set (Filters plug)"
    and res: "noFilterKey \<notin> fst ` set (Filters plug) \<or> noFilterKey \<notin> fst ` set (Handlers plug)"
    and ord: "sameTable table table'"
  shows "count_list (fst (route table' holds ev)) (Run (Name plug) h ev) = 1
         \<and> \<not> snd (route table' holds ev)"
  using unfiltered_once_listed [OF reg ent last dF inj kh nof res, of holds ev]
    registered_any_order(1) [OF reg ord, of holds ev "Run (Name plug) h ev"]
    registered_any_order(2) [OF reg ord, of holds ev]
  by simp

theorem unfiltered_handler_runs_once_witness:
  "registerAllPlugins [pluginA, pluginB] [] = Inr (wireAll [pluginA, pluginB] [])
   \<and> (''any'', 20) \<in> set (Handlers pluginB) \<and> ''any'' \<notin> fst ` set (Filters pluginB)
   \<and> sameTable (wireAll [pluginA, pluginB] []) reorderedTable
   \<and> count_list (fst (route reorderedTable (\<le>) (1::nat))) (Run ''B'' 20 1) = 1
   \<and> \<not> snd (route reorderedTable (\<le>) (1::nat))"
proof -
  have reg: "registerAllPlugins [pluginA, pluginB] [] = Inr (wireAll [pluginA, pluginB] [])"
    by (simp add: example_defs)
  have ent: "[pluginA, pluginB] = [pluginA] @ pluginB # []" by simp
  have last: "Name pluginB \<notin> Name ` set []" by simp
  have dF: "distinct (map fst (Filters pluginB))" by (simp add: pluginB_def)
  have inj: "distinct (map snd (Handlers pluginB))" by (simp add: pluginB_def)
  have kh: "(''any'', 20) \<in> set (Handlers pluginB)" by (simp add: pluginB_def)
  have nof: "''any'' \<notin> fst ` set (Filters pluginB)" by (simp add: pluginB_def)
  have res: "noFilterKey \<notin> fst ` set (Filters pluginB) \<or> noFilterKey \<notin> fst ` set (Handlers pluginB)"
    by (simp add: pluginB_def)
  note ord = reorderedTable_same
  from unfiltered_handler_runs_once [OF reg ent last dF inj kh nof res ord, of "(\<le>)" "1::nat"]
  show ?thesis using reg kh nof ord by (simp add: pluginB_def)
qed

text \<open>
  C3 as stated fails: \<open>reservedKeyPlugin\<close> has the handler \<open>1\<close> under the key
  \<open>any\<close>, which has no filter, and routing the event \<open>0\<close> once runs it twice: once
  by the unconditional call, and once more because the filter under the reserved key
  accepts the event and the handler stored under that key is the closure again.
\<close>

theorem unfiltered_handler_runs_twice:
  "registerAllPlugins [reservedKeyPlugin] [] = Inr (wireAll [reservedKeyPlugin] [])
   \<and> (''any'', 1) \<in> set (Handlers reservedKeyPlugin)
   \<and> ''any'' \<notin> fst ` set (Filters reservedKeyPlugin)
   \<and> count_list (fst (route (wireAll [reservedKeyPlugin] []) (\<le>) (0::nat))) (Run ''p'' 1 0) = 2"
  by (simp add: example_defs)

lemma filtered_iff_listed:
  assumes reg: "registerAllPlugins entries [] = Inr table"
    and ent: "entries = before @ plug # after" and last: "Name plug \<notin> Name ` set after"
    and dF: "distinct (map fst (Filters plug))"
    and dH: "distinct (map fst (Handlers plug))"
    and inj: "distinct (map snd (Handlers plug))"
    and kf: "(key, f) \<in> set (Filters plug)" and kh: "(key, h) \<in> set (Handlers plug)"
    and res: "key \<noteq> noFilterKey"
  shows "count_list (fst (route table holds ev)) (Run (Name plug) h ev) = (if holds f ev then 1 else 0)"
proof -
  let ?n = "Name plug"
  let ?x = "Run ?n h ev :: ('a, 'b, 'c) call"
  let ?cc = "condCalls ?n plug holds ev :: string \<times> 'a \<Rightarrow> ('a, 'b, 'c) call list"
  have lk: "map_of (Handlers plug) key = Some h"
    using dH kh by (rule map_of_is_SomeI)
  have hU: "h \<notin> set (unclaimed plug)"
  proof
    assume "h \<in> set (unclaimed plug)"
    then obtain k' where "(k', h) \<in> set (Handlers plug)" and "k' \<notin> fst ` set (Filters plug)"
      by (auto simp: unclaimed_def)
    with snd_inj [OF inj kh] kf show False by (auto intro: rev_image_eqI)
  qed
  have other: "?x \<notin> set (?cc kf')" if mem: "kf' \<in> set (claimed plug)" and ne: "fst kf' \<noteq> key" for kf'
  proof -
    obtain k g where kf': "kf' = (k, g)" by (cases kf')
    from mem kf' obtain h' where h': "map_of (Handlers plug) k = Some h'"
      by (auto simp: claimed_def)
    then have "(k, h') \<in> set (Handlers plug)" by (rule map_of_SomeD)
    with snd_inj [OF inj kh] ne kf' have "h' \<noteq> h" by auto
    then show ?thesis using kf' h' hU by (auto simp: condCalls_def)
  qed
  have "(key, f) \<in> set (claimed plug)"
    using kf lk by (simp add: claimed_def)
  then obtain xs ys where split: "claimed plug = xs @ (key, f) # ys"
    by (auto dest: split_list)
  from claimed_distinct [OF dF] split have
    "\<forall>kf' \<in> set xs. fst kf' \<noteq> key" "\<forall>kf' \<in> set ys. fst kf' \<noteq> key"
    by auto
  then have "\<forall>kf' \<in> set xs. ?x \<notin> set (?cc kf')" "\<forall>kf' \<in> set ys. ?x \<notin> set (?cc kf')"
    using other split by auto
  then have "count_list (concat (map ?cc xs)) ?x = 0" "count_list (concat (map ?cc ys)) ?x = 0"
    by (simp_all add: count_list_0_iff)
  moreover have "count_list (?cc (key, f)) ?x = (if holds f ev then 1 else 0)"
    using lk res by (simp add: condCalls_def)
  ultimately have c2: "count_list (concat (map ?cc (claimed plug))) ?x = (if holds f ev then 1 else 0)"
    unfolding split by simp
  have c1: "count_list (map (\<lambda>h. Run ?n h ev :: ('a, 'b, 'c) call) (unclaimed plug)) ?x = 0"
    using hU by (auto simp: count_list_0_iff)
  have "count_list (fst (route table holds ev)) ?x
          = count_list (filter (\<lambda>c. label c = ?n) (fst (route table holds ev))) ?x"
    by (simp add: count_list_label)
  also have "\<dots> = count_list (fst (dispatch ?n (mkEntry plug) holds ev)) ?x"
    by (simp add: registered_calls [OF reg ent last])
  also have "\<dots> = (if holds f ev then 1 else 0)"
    using c1 c2 by (simp add: dispatch_mkEntry [OF dF])
  finally show ?thesis .
qed

text \<open>
  C4, as the code has it. For a registered plugin with pairwise different filter keys,
  pairwise different handler keys and pairwise different handler functions, a key other
  than the reserved key that is bound in both mappings, and every event routed once, in
  whatever order the router ranges over its maps: the handler bound under the key is
  run once if the filter bound under it accepts the event, and not at all otherwise.
\<close>

theorem filtered_handler_runs_iff_filter:
  assumes reg: "registerAllPlugins entries [] = Inr table"
    and ent: "entries = before @ plug # after" and last: "Name plug \<notin> Name ` set after"
    and dF: "distinct (map fst (Filters plug))"
    and dH: "distinct (map fst (Handlers plug))"
    and inj: "distinct (map snd (Handlers plug))"
    and kf: "(key, f) \<in> set (Filters plug)" and kh: "(key, h) \<in> set (Handlers plug)"
    and res: "key \<noteq> noFilterKey"
    and ord: "sameTable table table'"
  shows "count_list (fst (route table' holds ev)) (Run (Name plug) h ev) = (if holds f ev then 1 else 0)"
  using filtered_iff_listed [OF reg ent last dF dH inj kf kh res, of holds ev]
    registered_any_order(1) [OF reg ord, of holds ev "Run (Name plug) h ev"]
  by simp

theorem filtered_handler_runs_iff_filter_witness:
  "registerAllPlugins [pluginA, pluginB] [] = Inr (wireAll [pluginA, pluginB] [])
   \<and> (''join'', 1) \<in> set (Filters pluginA) \<and> (''join'', 10) \<in> set (Handlers pluginA)
   \<and> ''join'' \<noteq> noFilterKey
   \<and> sameTable (wireAll [pluginA, pluginB] []) reorderedTable
   \<and> count_list (fst (route reorderedTable (\<le>) (1::nat))) (Run ''A'' 10 1) = 1
   \<and> count_list (fst (route reorderedTable (\<le>) (0::nat))) (Run ''A'' 10 0) = 0"
proof -
  have reg: "registerAllPlugins [pluginA, pluginB] [] = Inr (wireAll [pluginA, pluginB] [])"
    by (simp add: example_defs)
  have ent: "[pluginA, pluginB] = [] @ pluginA # [pluginB]" by simp
  have last: "Name pluginA \<notin> Name ` set [pluginB]" by (simp add: pluginA_def pluginB_def)
  have dF: "distinct (map fst (Filters pluginA))" by (simp add: pluginA_def)
  have dH: "distinct (map fst (Handlers pluginA))" by (simp add: pluginA_def)
  have inj: "distinct (map snd (Handlers pluginA))" by (simp add: pluginA_def)
  have kf: "(''join'', 1) \<in> set (Filters pluginA)" by (simp add: pluginA_def)
  have kh: "(''join'', 10) \<in> set (Handlers pluginA)" by (simp add: pluginA_def)
  have res: "''join'' \<noteq> noFilterKey" by (simp add: noFilterKey_def)
  note ord = reorderedTable_same
  from filtered_handler_runs_iff_filter [OF reg ent last dF dH inj kf kh res ord, of "(\<le>)" "1::nat"]
       filtered_handler_runs_iff_filter [OF reg ent last dF dH inj kf kh res ord, of "(\<le>)" "0::nat"]
  show ?thesis using reg kf kh res ord by (simp add: pluginA_def)
qed

text \<open>
  C4 as stated fails: in \<open>reservedKeyPlugin\<close> the reserved key is bound in both
  mappings and its filter accepts the event \<open>0\<close>, yet the handler \<open>0\<close> bound
  under that key is never run: the closure has replaced it in the entry.
\<close>

theorem reserved_key_handler_never_runs:
  "registerAllPlugins [reservedKeyPlugin] [] = Inr (wireAll [reservedKeyPlugin] [])
   \<and> (noFilterKey, 0) \<in> set (Filters reservedKeyPlugin)
   \<and> (noFilterKey, 0) \<in> set (Handlers reservedKeyPlugin)
   \<and> (0::nat) \<le> (0::nat)
   \<and> Run ''p'' 0 0 \<notin> set (fst (route (wireAll [reservedKeyPlugin] []) (\<le>) (0::nat)))"
  by (simp add: example_defs)



text \<open>
  C6. When every \<open>Load()\<close> succeeds and two descriptors of the list have the same
  name, the later one being the last of that name, registration returns a table; the
  only entry stored under the name is the one built from the later descriptor, and on
  every event, in whatever order the router ranges over its maps, every call under
  that name is made as often as that entry makes it.
\<close>

theorem later_plugin_supersedes:
  assumes loads: "\<forall>q \<in> set entries. Load q = None"
    and ent: "entries = before @ earlier # between @ later # after"
    and same: "Name earlier = Name later"
    and last: "Name later \<notin> Name ` set after"
  shows "\<exists>table. registerAllPlugins entries [] = Inr table
           \<and> filter (\<lambda>(n, e). n = Name earlier) table = [(Name later, mkEntry later)]
           \<and> (\<forall>table' holds ev c. sameTable table table' \<longrightarrow> label c = Name earlier \<longrightarrow>
                 count_list (fst (route table' holds ev)) c
                   = count_list (fst (dispatch (Name later) (mkEntry later) holds ev)) c)"
proof -
  let ?t = "wireAll entries []"
  have reg: "registerAllPlugins entries [] = Inr ?t"
    using loadAll_None [OF loads] by (simp add: registerAllPlugins_def)
  from ent have ent': "entries = (before @ earlier # between) @ later # after" by simp
  note lk = registered_lookup [OF reg ent' last]
  have "filter (\<lambda>(n, e). n = Name earlier) ?t = [(Name later, mkEntry later)]"
    using only_entry [OF lk(2) lk(1)] same by simp
  moreover have "count_list (fst (route table' holds ev)) c
                   = count_list (fst (dispatch (Name later) (mkEntry later) holds ev)) c"
    if ord: "sameTable ?t table'" and lab: "label c = Name earlier"
    for table' holds and ev :: 'c and c :: "('a, 'b, 'c) call"
  proof -
    have "count_list (fst (route table' holds ev)) c = count_list (fst (route ?t holds ev)) c"
      using reg ord by (rule registered_any_order(1))
    also have "\<dots> = count_list (fst (dispatch (Name later) (mkEntry later) holds ev)) c"
      using lk(1) lab same by (simp add: route_count_label [OF lk(2) lk(3)])
    finally show ?thesis .
  qed
  ultimately show ?thesis using reg by blast
qed

theorem later_plugin_supersedes_witness:
  "Load pluginA = None \<and> Load pluginB = None \<and> Load pluginA2 = None
   \<and> Name pluginA = Name pluginA2
   \<and> registerAllPlugins [pluginA, pluginB, pluginA2] [] = Inr (wireAll [pluginA, pluginB, pluginA2] [])
   \<and> filter (\<lambda>(n, e). n = Name pluginA) (wireAll [pluginA, pluginB, pluginA2] [])
       = [(Name pluginA2, mkEntry pluginA2)]
   \<and> count_list (fst (route (wireAll [pluginA, pluginB, pluginA2] []) (\<le>) (1::nat))) (Run ''A'' 10 1) = 0
   \<and> count_list (fst (route (wireAll [pluginA, pluginB, pluginA2] []) (\<le>) (1::nat))) (Run ''A'' 30 1) = 1"
proof -
  let ?t = "wireAll [pluginA, pluginB, pluginA2] []"
  have loads: "\<forall>q \<in> set [pluginA, pluginB, pluginA2]. Load q = None"
    by (simp add: pluginA_def pluginB_def pluginA2_def)
  have ent: "[pluginA, pluginB, pluginA2] = [] @ pluginA # [pluginB] @ pluginA2 # []" by simp
  have same: "Name pluginA = Name pluginA2" by (simp add: pluginA_def pluginA2_def)
  have last: "Name pluginA2 \<notin> Name ` set []" by simp
  have reg: "registerAllPlugins [pluginA, pluginB, pluginA2] [] = Inr ?t"
    by (simp add: example_defs)
  have ord: "sameTable ?t ?t"
    by (auto simp add: sameTable_def sameEntry_def pluginA_def pluginB_def pluginA2_def
        mkEntry_def getBool_def noFilterKey_def split: if_splits)
  from later_plugin_supersedes [OF loads ent same last, where 'c = nat]
  obtain table where t1: "registerAllPlugins [pluginA, pluginB, pluginA2] [] = Inr table"
    and t2: "filter (\<lambda>(n, e). n = Name pluginA) table = [(Name pluginA2, mkEntry pluginA2)]"
    and t3: "\<And>table' holds (ev :: nat) c. sameTable table table' \<Longrightarrow> label c = Name pluginA \<Longrightarrow>
      count_list (fst (route table' holds ev)) c
        = count_list (fst (dispatch (Name pluginA2) (mkEntry pluginA2) holds ev)) c"
    by blast
  from t1 reg have tt: "table = ?t" by (simp only: sum.inject)
  have stored: "filter (\<lambda>(n, e). n = Name pluginA) ?t = [(Name pluginA2, mkEntry pluginA2)]"
    using t2 unfolding tt .
  have calls: "count_list (fst (route ?t holds ev)) c
        = count_list (fst (dispatch (Name pluginA2) (mkEntry pluginA2) holds ev)) c"
    if "label c = Name pluginA" for holds and ev :: nat and c
    using t3 [of ?t c holds ev] ord that unfolding tt by simp
  have "count_list (fst (route ?t (\<le>) (1::nat))) (Run ''A'' 10 1) = 0"
    using calls [of "Run ''A'' 10 1" "(\<le>)"] by (simp add: example_defs)
  moreover have "count_list (fst (route ?t (\<le>) (1::nat))) (Run ''A'' 30 1) = 1"
    using calls [of "Run ''A'' 30 1" "(\<le>)"] by (simp add: example_defs)
  ultimately show ?thesis
    using loads same reg stored by simp
qed

section \<open>Sending\<close>

text \<open>
  C7. While the API connection is not connected, \<open>SendGroupMsg\<close> leaves the whole
  state as it is: nothing is handed to \<open>Send\<close>, \<open>echoqueue\<close> and the log are
  unchanged; the function has no other way to end than to return.
\<close>

theorem send_unavailable_noop:
  "\<not> IsAPIOk w \<Longrightarrow> SendGroupMsg now groupID message w = w"
  by (simp add: SendGroupMsg_def)

theorem send_unavailable_noop_witness:
  "\<not> IsAPIOk (Client :: (nat, nat, nat) world)
   \<and> SendGroupMsg 1000 1 ''hi'' (Client :: (nat, nat, nat) world) = Client"
proof -
  have h: "\<not> IsAPIOk (Client :: (nat, nat, nat) world)"
    by (simp add: IsAPIOk_def IsConnected_def Client_def newWSClient_def)
  from send_unavailable_noop [OF h, of 1000 1 "''hi''"] show ?thesis using h by simp
qed

text \<open>
  C1 does not hold of the code. With the API connection up, \<open>SendGroupMsg\<close> hands
  the payload with \<open>Echo = 1000\<close> to \<open>Send\<close>, and afterwards \<open>echoqueue\<close> is still
  empty: the id is not tracked.
\<close>

theorem send_does_not_track:
  "IsAPIOk connectedClient
   \<and> outbox (apiConn (SendGroupMsg 1000 1 ''hi'' connectedClient))
       = [(TextMessage, \<lparr>Action = ''send_group_msg'',
                          Params = \<lparr>GroupID = 1, Message = ''hi''\<rparr>, Echo = 1000\<rparr>)]
   \<and> echoqueue (SendGroupMsg 1000 1 ''hi'' connectedClient) = []
   \<and> \<not> getBool (echoqueue (SendGroupMsg 1000 1 ''hi'' connectedClient)) 1000"
  by (simp add: connectedClient_def SendGroupMsg_def IsAPIOk_def IsConnected_def Client_def
      newWSClient_def Send_def ActionSendGroupMsg_def getBool_def)

section \<open>Inbound frames\<close>

text \<open>
  C2 does not hold of the code. On a frame that fails to decode the callback of the
  event connection ends in the panic of \<open>log.Panicln\<close>; no handler is called, and no
  entry is added to the log, since \<open>AddLog\<close> comes after the panic.
\<close>

theorem decode_failure_panics:
  "eventOnMessage (\<le>) (Inl ''unexpected end of JSON input'') routingClient
     = (routingClient, Panicked ''unexpected end of JSON input'')
   \<and> logService routingClient = [] \<and> routed routingClient = []"
  by (simp add: eventOnMessage_def log_Panicln_def routingClient_def Client_def)

section \<open>The tracked set\<close>

text \<open>
  C9 does not hold of the code. The callback of the API connection reads
  \<open>echoqueue\<close>, and the sweep ranges over it, while \<open>mu\<close> is not held; only the
  deletions are made under the lock.
\<close>

theorem echoqueue_read_without_lock:
  "accesses (apiOnMessage (Inr \<lparr>respEcho = 5\<rparr>) (Client :: (nat, nat, nat) world)) = [(ReadEcho, False)]
   \<and> accesses (sweepTick 1000 (Client :: (nat, nat, nat) world)) = [(RangeEcho, False)]"
  by (simp add: apiOnMessage_def sweepTick_def touch_def Client_def getBool_def)

text \<open>
  C10. In every state of the client \<open>echoqueue\<close> is empty, no deletion from it has
  been executed, and no timeout notice has been logged.
\<close>

theorem echoqueue_always_empty:
  "reachable w \<Longrightarrow>
     echoqueue w = [] \<and> DeleteEcho \<notin> fst ` set (accesses w)
     \<and> (\<forall>echo. (LogTypeError, EchoTimeout echo) \<notin> set (logService w))"
proof (induction rule: reachable.induct)
  case start
  show ?case by (simp add: Client_def)
next
  case (initialized w entries w')
  then show ?case by (auto simp: Initialize_def Let_def split: sum.splits)
next
  case (api_flag w b)
  then show ?case by simp
next
  case (event_flag w b)
  then show ?case by simp
next
  case (api_connect w)
  then show ?case by (simp add: handleConnect_def AddLog_def)
next
  case (event_connect w)
  then show ?case by (simp add: handleConnect_def AddLog_def)
next
  case (conn_error w err)
  then show ?case by (simp add: handleError_def AddLog_def)
next
  case (api_message w decoded)
  then show ?case
    by (cases decoded) (simp_all add: apiOnMessage_def AddLog_def touch_def getBool_def Let_def)
next
  case (event_message w holds decoded)
  then show ?case
    by (cases decoded) (simp_all add: eventOnMessage_def log_Panicln_def split: prod.splits)
next
  case (tick w now)
  then show ?case by (simp add: sweepTick_def touch_def)
next
  case (send w now groupID message)
  then show ?case by (simp add: SendGroupMsg_def Let_def)
qed

theorem echoqueue_always_empty_witness:
  "reachable (SendGroupMsg 1000 1 ''hi'' connectedClient)
   \<and> echoqueue (SendGroupMsg 1000 1 ''hi'' connectedClient) = []
   \<and> DeleteEcho \<notin> fst ` set (accesses (SendGroupMsg 1000 1 ''hi'' connectedClient))
   \<and> (\<forall>echo. (LogTypeError, EchoTimeout echo) \<notin> set (logService (SendGroupMsg 1000 1 ''hi'' connectedClient)))"
proof -
  have "reachable (Client :: (nat, nat, nat) world)" by (rule reachable.start)
  then have "reachable ((Client :: (nat, nat, nat) world)\<lparr>apiConn := (apiConn (Client :: (nat, nat, nat) world))\<lparr>connected := True\<rparr>\<rparr>)"
    by (rule reachable.api_flag)
  then have "reachable connectedClient" by (simp add: connectedClient_def Client_def)
  then have r: "reachable (SendGroupMsg 1000 1 ''hi'' connectedClient)" by (rule reachable.send)
  from echoqueue_always_empty [OF r] show ?thesis using r by simp
qed

subsection \<open>The sweep\<close>

lemma sint_diff:
  assumes "0 \<le> sint a" and "0 \<le> sint b"
  shows "sint (a - b :: 64 word) = sint a - sint b"
proof -
  have "a - b = word_of_int (sint a - sint b)" by simp
  then have "sint (a - b) = signed_take_bit 63 (sint a - sint b)"
    using sint_sbintrunc' [of "sint a - sint b", where 'a = 64] by simp
  also have "\<dots> = sint a - sint b"
    using sint_lt [of a] sint_lt [of b] assms by (intro signed_take_bit_int_eq_self) simp_all
  finally show ?thesis .
qed

lemma sint_timeForWait: "sint timeForWait = 30"
  by (simp add: timeForWait_def)

lemma expired_iff:
  "0 \<le> sint now \<Longrightarrow> 0 \<le> sint echo \<Longrightarrow>
   expired now (echo, True) \<longleftrightarrow> 30 < sint now - sint echo"
  by (simp add: expired_def word_sless_alt sint_diff sint_timeForWait)

lemma sweepEntries_Cons:
  "sweepEntries now ((echo, state) # rest) w =
     (if expired now (echo, state)
      then sweepEntries now rest
             (Unlock (deleteEcho echo (Lock (AddLog LogTypeError (EchoTimeout echo) w))))
      else sweepEntries now rest w)"
  by (simp add: expired_def)

lemma sweepEntries_queue:
  "echoqueue (sweepEntries now es w) =
     filter (\<lambda>p. fst p \<notin> fst ` set (filter (expired now) es)) (echoqueue w)"
proof (induction es arbitrary: w)
  case Nil
  then show ?case by simp
next
  case (Cons a es)
  obtain echo state where a: "a = (echo, state)" by (cases a)
  show ?case
  proof (cases "expired now (echo, state)")
    case True
    then have "echoqueue (sweepEntries now (a # es) w) =
        filter (\<lambda>p. fst p \<notin> fst ` set (filter (expired now) es)) (AList.delete echo (echoqueue w))"
      using a by (simp add: sweepEntries_Cons Cons.IH Unlock_def Lock_def deleteEcho_def touch_def AddLog_def
          del: sweepEntries.simps)
    also have "\<dots> = filter (\<lambda>p. fst p \<notin> fst ` set (filter (expired now) (a # es))) (echoqueue w)"
      using True a by (auto simp: AList.delete_eq intro: filter_cong)
    finally show ?thesis .
  next
    case False
    then show ?thesis using a by (simp add: sweepEntries_Cons Cons.IH del: sweepEntries.simps)
  qed
qed

lemma sweepEntries_logs:
  "logService (sweepEntries now es w) =
     logService w @ map (\<lambda>p. (LogTypeError, EchoTimeout (fst p))) (filter (expired now) es)"
proof (induction es arbitrary: w)
  case Nil
  then show ?case by simp
next
  case (Cons a es)
  obtain echo state where a: "a = (echo, state)" by (cases a)
  show ?case
    using a by (simp add: sweepEntries_Cons Cons.IH Unlock_def Lock_def deleteEcho_def touch_def AddLog_def
        del: sweepEntries.simps)
qed

lemma sweepTick_queue:
  "echoqueue (sweepTick now w) =
     filter (\<lambda>p. fst p \<notin> fst ` set (filter (expired now) (echoqueue w))) (echoqueue w)"
  by (simp add: sweepTick_def sweepEntries_queue touch_def)

lemma sweepTick_logs:
  "logService (sweepTick now w) =
     logService w @ map (\<lambda>p. (LogTypeError, EchoTimeout (fst p))) (filter (expired now) (echoqueue w))"
  by (simp add: sweepTick_def sweepEntries_logs touch_def)

lemma sweepTick_distinct:
  "distinct (map fst (echoqueue w)) \<Longrightarrow> distinct (map fst (echoqueue (sweepTick now w)))"
  by (simp add: sweepTick_queue distinct_map_filter)

lemma count_named:
  "count_list (map (\<lambda>p. (LogTypeError, EchoTimeout (fst p))) es) (LogTypeError, EchoTimeout T)
     = length (filter (\<lambda>p. fst p = T) es)"
  by (induction es) auto

lemma key_once:
  "distinct (map fst q) \<Longrightarrow> (T, v) \<in> set q \<Longrightarrow> filter (\<lambda>p. fst p = T) q = [(T, v)]"
proof (induction q)
  case Nil
  then show ?case by simp
next
  case (Cons a q)
  show ?case
  proof (cases "fst a = T")
    case True
    with Cons.prems have "a = (T, v)" and "T \<notin> fst ` set q"
      by (auto simp: rev_image_eqI)
    then have "filter (\<lambda>p. fst p = T) q = []"
      by (auto simp: filter_empty_conv)
    with \<open>a = (T, v)\<close> show ?thesis by simp
  next
    case False
    with Cons show ?thesis by auto
  qed
qed

lemma sweep_absent:
  assumes "T \<notin> fst ` set (echoqueue w)"
  shows "T \<notin> fst ` set (echoqueue (sweepTick now w))"
    and "timeouts (sweepTick now w) T = timeouts w T"
proof -
  show "T \<notin> fst ` set (echoqueue (sweepTick now w))"
    using assms by (auto simp: sweepTick_queue)
  have "filter (\<lambda>p. fst p = T) (filter (expired now) (echoqueue w)) = []"
    using assms by (auto simp: filter_empty_conv)
  then show "timeouts (sweepTick now w) T = timeouts w T"
    by (simp add: timeouts_def sweepTick_logs count_named)
qed

lemma sweep_keeps:
  assumes "distinct (map fst (echoqueue w))" and "map_of (echoqueue w) T = Some True"
    and "\<not> expired now (T, True)"
  shows "map_of (echoqueue (sweepTick now w)) T = Some True"
    and "timeouts (sweepTick now w) T = timeouts w T"
proof -
  from assms(2) have mem: "(T, True) \<in> set (echoqueue w)" by (rule map_of_SomeD)
  have only: "filter (\<lambda>p. fst p = T) (echoqueue w) = [(T, True)]"
    using assms(1) mem by (rule key_once)
  have none: "filter (\<lambda>p. fst p = T) (filter (expired now) (echoqueue w)) = []"
  proof -
    have "filter (\<lambda>p. fst p = T) (filter (expired now) (echoqueue w))
            = filter (expired now) (filter (\<lambda>p. fst p = T) (echoqueue w))"
      by (simp add: conj_commute)
    with only assms(3) show ?thesis by simp
  qed
  then have notX: "T \<notin> fst ` set (filter (expired now) (echoqueue w))"
    by (auto simp: filter_empty_conv)
  have "(T, True) \<in> set (echoqueue (sweepTick now w))"
    using mem notX by (simp add: sweepTick_queue)
  with sweepTick_distinct [OF assms(1)]
  show "map_of (echoqueue (sweepTick now w)) T = Some True" by (simp add: map_of_is_SomeI)
  show "timeouts (sweepTick now w) T = timeouts w T"
    using none by (simp add: timeouts_def sweepTick_logs count_named)
qed

lemma sweep_removes:
  assumes "distinct (map fst (echoqueue w))" and "map_of (echoqueue w) T = Some True"
    and "expired now (T, True)"
  shows "T \<notin> fst ` set (echoqueue (sweepTick now w))"
    and "timeouts (sweepTick now w) T = timeouts w T + 1"
proof -
  from assms(2) have mem: "(T, True) \<in> set (echoqueue w)" by (rule map_of_SomeD)
  have only: "filter (\<lambda>p. fst p = T) (echoqueue w) = [(T, True)]"
    using assms(1) mem by (rule key_once)
  have one: "filter (\<lambda>p. fst p = T) (filter (expired now) (echoqueue w)) = [(T, True)]"
  proof -
    have "filter (\<lambda>p. fst p = T) (filter (expired now) (echoqueue w))
            = filter (expired now) (filter (\<lambda>p. fst p = T) (echoqueue w))"
      by (simp add: conj_commute)
    with only assms(3) show ?thesis by simp
  qed
  have "(T, True) \<in> set (filter (expired now) (echoqueue w))"
    using mem assms(3) by simp
  then have "T \<in> fst ` set (filter (expired now) (echoqueue w))"
    by (rule rev_image_eqI) simp
  then show "T \<notin> fst ` set (echoqueue (sweepTick now w))"
    by (simp add: sweepTick_queue image_iff)
  show "timeouts (sweepTick now w) T = timeouts w T + 1"
    using one by (simp add: timeouts_def sweepTick_logs count_named)
qed

lemma runTicks_absent:
  "T \<notin> fst ` set (echoqueue w) \<Longrightarrow>
   T \<notin> fst ` set (echoqueue (runTicks first k w)) \<and> timeouts (runTicks first k w) T = timeouts w T"
proof (induction k arbitrary: first w)
  case 0
  then show ?case by simp
next
  case (Suc k)
  from sweep_absent [OF Suc.prems, of first] Suc.IH [of "sweepTick first w" "first + timeForWait"]
  show ?case by simp
qed

lemma sint_plus_period:
  assumes "0 \<le> sint a" and "sint a < 2 ^ 62 + 100"
  shows "sint (a + timeForWait :: 64 word) = sint a + 30"
proof -
  have "a + timeForWait = word_of_int (sint a + 30)" by (simp add: timeForWait_def)
  then have "sint (a + timeForWait) = signed_take_bit 63 (sint a + 30)"
    using sint_sbintrunc' [of "sint a + 30", where 'a = 64] by simp
  also have "\<dots> = sint a + 30"
    using assms by (intro signed_take_bit_int_eq_self) simp_all
  finally show ?thesis .
qed

lemma runTicks_keeps:
  assumes "distinct (map fst (echoqueue w))" and "map_of (echoqueue w) T = Some True"
    and "0 \<le> sint T" and "sint T < 2 ^ 62" and "0 \<le> sint first"
    and "k = 0 \<or> sint first + 30 * (int k - 1) \<le> sint T + 30"
  shows "map_of (echoqueue (runTicks first k w)) T = Some True
         \<and> timeouts (runTicks first k w) T = timeouts w T"
  using assms
proof (induction k arbitrary: first w)
  case 0
  then show ?case by simp
next
  case (Suc k)
  from Suc.prems(6) have le: "sint first + 30 * int k \<le> sint T + 30" by simp
  then have "sint first \<le> sint T + 30" by simp
  then have ne: "\<not> expired first (T, True)"
    using Suc.prems(3,5) by (simp add: expired_iff)
  note keep = sweep_keeps [OF Suc.prems(1,2) ne]
  have d: "distinct (map fst (echoqueue (sweepTick first w)))"
    using Suc.prems(1) by (rule sweepTick_distinct)
  have next_t: "sint (first + timeForWait) = sint first + 30"
    using Suc.prems(4,5) \<open>sint first \<le> sint T + 30\<close> by (intro sint_plus_period) simp_all
  have cond: "k = 0 \<or> sint (first + timeForWait) + 30 * (int k - 1) \<le> sint T + 30"
    using le next_t by simp
  have nn: "0 \<le> sint (first + timeForWait)" using next_t Suc.prems(5) by simp
  from Suc.IH [OF d keep(1) Suc.prems(3,4) nn cond] keep(2)
  show ?case by simp
qed

text \<open>
  C8. Let the id \<open>T\<close> be tracked (its flag true), \<open>T\<close> a time stamp between \<open>0\<close>
  and \<open>2^62\<close>, and let the first tick after that read a time from \<open>T\<close> to
  \<open>T + 30\<close>, the ticks following each other by the period. When only the sweep acts
  on the set, the id is tracked at every time up to \<open>T + 29\<close>; at every time from
  \<open>T + 61\<close> on it is gone and the log holds exactly one more timeout notice for it.
\<close>

theorem sweep_expiry_window:
  assumes d: "distinct (map fst (echoqueue w))" and p: "map_of (echoqueue w) T = Some True"
    and T0: "0 \<le> sint T" and T1: "sint T < 2 ^ 62"
    and f0: "sint T \<le> sint first" and f1: "sint first \<le> sint T + 30"
  shows "(\<forall>t. sint t \<le> sint T + 29 \<longrightarrow> map_of (echoqueue (sweptBy first t w)) T = Some True)
       \<and> (\<forall>t. sint T + 61 \<le> sint t \<longrightarrow>
             T \<notin> fst ` set (echoqueue (sweptBy first t w))
             \<and> timeouts (sweptBy first t w) T = timeouts w T + 1)"
proof (rule conjI; intro allI impI)
  fix t :: "64 word"
  assume t: "sint t \<le> sint T + 29"
  have first0: "0 \<le> sint first" using T0 f0 by simp
  have "ticksBy first t = 0 \<or> sint first + 30 * (int (ticksBy first t) - 1) \<le> sint T + 30"
  proof (cases "sint t < sint first")
    case True
    then show ?thesis by (simp add: ticksBy_def)
  next
    case False
    then have "30 * ((sint t - sint first) div 30) \<le> sint t - sint first"
      by (simp add: div_mult_self_is_m)
    with False t show ?thesis by (simp add: ticksBy_def)
  qed
  from runTicks_keeps [OF d p T0 T1 first0 this]
  show "map_of (echoqueue (sweptBy first t w)) T = Some True"
    by (simp add: sweptBy_def)
next
  fix t :: "64 word"
  assume t: "sint T + 61 \<le> sint t"
  have first0: "0 \<le> sint first" using T0 f0 by simp
  let ?w1 = "sweepTick first w"
  let ?t2 = "first + timeForWait"
  have ne1: "\<not> expired first (T, True)"
    using T0 first0 f1 by (simp add: expired_iff)
  note k1 = sweep_keeps [OF d p ne1]
  have d1: "distinct (map fst (echoqueue ?w1))" using d by (rule sweepTick_distinct)
  have s2: "sint ?t2 = sint first + 30"
    using first0 f1 T1 by (intro sint_plus_period) simp_all
  have t20: "0 \<le> sint ?t2" using s2 first0 by simp
  show "T \<notin> fst ` set (echoqueue (sweptBy first t w))
        \<and> timeouts (sweptBy first t w) T = timeouts w T + 1"
  proof (cases "sint first = sint T")
    case False
    with f0 have gt: "sint T + 1 \<le> sint first" by simp
    have ex2: "expired ?t2 (T, True)"
      using T0 t20 s2 gt by (simp add: expired_iff)
    note r2 = sweep_removes [OF d1 k1(1) ex2]
    from t f1 have "1 \<le> (sint t - sint first) div 30"
      by (simp add: pos_imp_zdiv_pos_iff)
    then obtain k' where k: "ticksBy first t = Suc (Suc k')"
      using t f1 by (auto simp: ticksBy_def nat_add_distrib intro: that [of "nat ((sint t - sint first) div 30) - 1"])
    from runTicks_absent [OF r2(1), of "?t2 + timeForWait" k'] r2(2) k1(2)
    show ?thesis by (simp add: sweptBy_def k)
  next
    case True
    let ?w2 = "sweepTick ?t2 ?w1"
    let ?t3 = "?t2 + timeForWait"
    have ne2: "\<not> expired ?t2 (T, True)"
      using T0 t20 s2 True by (simp add: expired_iff)
    note k2 = sweep_keeps [OF d1 k1(1) ne2]
    have d2: "distinct (map fst (echoqueue ?w2))" using d1 by (rule sweepTick_distinct)
    have s3: "sint ?t3 = sint first + 60"
      using sint_plus_period [of ?t2] t20 s2 f1 T1 by simp
    have ex3: "expired ?t3 (T, True)"
      using T0 s3 first0 True by (simp add: expired_iff)
    note r3 = sweep_removes [OF d2 k2(1) ex3]
    from t True have "2 \<le> (sint t - sint first) div 30"
      by simp
    then obtain k' where k: "ticksBy first t = Suc (Suc (Suc k'))"
      using t True by (auto simp: ticksBy_def nat_add_distrib intro: that [of "nat ((sint t - sint first) div 30) - 2"])
    from runTicks_absent [OF r3(1), of "?t3 + timeForWait" k'] r3(2) k2(2) k1(2)
    show ?thesis by (simp add: sweptBy_def k)
  qed
qed

theorem sweep_expiry_window_witness:
  "distinct (map fst (echoqueue trackedClient))
   \<and> map_of (echoqueue trackedClient) 1000 = Some True
   \<and> 0 \<le> sint (1000 :: 64 word) \<and> sint (1000 :: 64 word) < 2 ^ 62
   \<and> sint (1000 :: 64 word) \<le> sint (1010 :: 64 word)
   \<and> sint (1010 :: 64 word) \<le> sint (1000 :: 64 word) + 30
   \<and> map_of (echoqueue (sweptBy 1010 1029 trackedClient)) 1000 = Some True
   \<and> 1000 \<notin> fst ` set (echoqueue (sweptBy 1010 1061 trackedClient))
   \<and> timeouts (sweptBy 1010 1061 trackedClient) 1000 = timeouts trackedClient 1000 + 1"
proof -
  have d: "distinct (map fst (echoqueue trackedClient))"
    by (simp add: trackedClient_def Client_def)
  have p: "map_of (echoqueue trackedClient) 1000 = Some True"
    by (simp add: trackedClient_def Client_def)
  have T0: "0 \<le> sint (1000 :: 64 word)" by simp
  have T1: "sint (1000 :: 64 word) < 2 ^ 62" by simp
  have f0: "sint (1000 :: 64 word) \<le> sint (1010 :: 64 word)" by simp
  have f1: "sint (1010 :: 64 word) \<le> sint (1000 :: 64 word) + 30" by simp
  have a: "sint (1029 :: 64 word) \<le> sint (1000 :: 64 word) + 29" by simp
  have b: "sint (1000 :: 64 word) + 61 \<le> sint (1061 :: 64 word)" by simp
  from sweep_expiry_window [OF d p T0 T1 f0 f1] a b
  have "map_of (echoqueue (sweptBy 1010 1029 trackedClient)) 1000 = Some True"
    and "1000 \<notin> fst ` set (echoqueue (sweptBy 1010 1061 trackedClient))
         \<and> timeouts (sweptBy 1010 1061 trackedClient) 1000 = timeouts trackedClient 1000 + 1"
    by blast+
  with d p T0 T1 f0 f1 show ?thesis by simp
qed

end
